theory Spec2Isabelle
  imports Main "HOL-Library.Word" "HOL-Library.Multiset"
begin

unbundle bit_operations_syntax

section \<open>Data model\<close>

text \<open>
  CosHash works on \<^verbatim>\<open>std::vector<uint8_t>\<close> (byte sequences) and on
  \<^verbatim>\<open>std::vector<uint32_t>\<close> (the state). Bytes are 8-bit words, state words are
  32-bit words whose arithmetic wraps, vectors are lists, and \<^verbatim>\<open>size_t\<close> lengths
  and indices are natural numbers.
\<close>

type_synonym u8 = "8 word"
type_synonym u32 = "32 word"

definition BLOCK_SIZE :: nat where
  "BLOCK_SIZE = 64"

definition STATE_SIZE :: nat where
  "STATE_SIZE = 16"

section \<open>Padding\<close>

text \<open>
  \<^verbatim>\<open>while (padded.size() % BLOCK_SIZE != 0) padded.push_back(0);\<close>
  The loop is not structural; it ends because the distance to the next multiple of the
  block size shrinks with every byte pushed.
\<close>

function pad_loop :: "u8 list \<Rightarrow> u8 list" where
  "pad_loop padded =
     (if length padded mod BLOCK_SIZE \<noteq> 0 then pad_loop (padded @ [0]) else padded)"
  by pat_completeness auto
termination
proof (relation "measure (\<lambda>p. (BLOCK_SIZE - length p mod BLOCK_SIZE) mod BLOCK_SIZE)")
  show "wf (measure (\<lambda>p::u8 list. (BLOCK_SIZE - length p mod BLOCK_SIZE) mod BLOCK_SIZE))"
    by simp
next
  fix padded :: "u8 list"
  assume "length padded mod BLOCK_SIZE \<noteq> 0"
  then have r: "0 < length padded mod 64" "length padded mod 64 < 64"
    by (simp_all add: BLOCK_SIZE_def)
  have "Suc (length padded) mod 64 =
        (if Suc (length padded mod 64) = 64 then 0 else Suc (length padded mod 64))"
    by (simp add: mod_Suc)
  with r show "(padded @ [0], padded) \<in>
      measure (\<lambda>p. (BLOCK_SIZE - length p mod BLOCK_SIZE) mod BLOCK_SIZE)"
    by (auto simp: BLOCK_SIZE_def)
qed

definition pad_input :: "u8 list \<Rightarrow> u8 list" where
  "pad_input input = pad_loop (input @ [0x80])"

section \<open>Seed derivation\<close>

text \<open>
  \<^verbatim>\<open>seed ^= input[i] + 0x9e3779b9 + (seed << 6) + (seed >> 2);\<close>
  The byte is promoted and the sum is taken in \<^verbatim>\<open>unsigned int\<close>, so every
  operation is one of 32-bit words. The start value is the length cast to
  \<^verbatim>\<open>uint32_t\<close>.
\<close>

definition seed_update :: "u32 \<Rightarrow> u8 \<Rightarrow> u32" where
  "seed_update seed x = seed XOR (ucast x + 0x9e3779b9 + push_bit 6 seed + drop_bit 2 seed)"

definition derive_seed :: "u8 list \<Rightarrow> u32" where
  "derive_seed input =
     foldl (\<lambda>seed i. seed_update seed (input ! i))
       (word_of_nat (length input)) [0..<length input]"

text \<open>
  The seed as the specification words it: a fold over the bytes, on natural numbers,
  with the reduction modulo \<open>2 ^ 32\<close> written out.
\<close>

definition seed_update_spec :: "nat \<Rightarrow> nat \<Rightarrow> nat" where
  "seed_update_spec seed x =
     seed XOR ((x + 0x9e3779b9 + push_bit 6 seed mod 2 ^ 32 + drop_bit 2 seed) mod 2 ^ 32)"

definition derive_seed_spec :: "nat list \<Rightarrow> nat" where
  "derive_seed_spec xs = foldl seed_update_spec (length xs mod 2 ^ 32) xs"

section \<open>State initialisation\<close>

definition initial_mix :: "u32 \<Rightarrow> int \<Rightarrow> u32" where
  "initial_mix seed index =
     (let val = seed XOR (word_of_int index * 0x85ebca6b);
          val = val XOR drop_bit 16 val;
          val = val * 0x85ebca6b;
          val = val XOR drop_bit 13 val;
          val = val * 0xc2b2ae35;
          val = val XOR drop_bit 16 val
      in val)"

section \<open>Per-block helpers\<close>

text \<open>
  \<^verbatim>\<open>b0 << 24 | b1 << 16 | b2 << 8 | b3\<close>, the expression \<^verbatim>\<open>derive_params\<close> and the
  absorb loop both use to read four bytes as one big-endian word.
\<close>

definition be_word :: "u8 \<Rightarrow> u8 \<Rightarrow> u8 \<Rightarrow> u8 \<Rightarrow> u32" where
  "be_word b0 b1 b2 b3 =
     push_bit 24 (ucast b0) OR push_bit 16 (ucast b1) OR push_bit 8 (ucast b2) OR ucast b3"

definition derive_params :: "u8 list \<Rightarrow> u32 \<times> u32 \<times> u32" where
  "derive_params block =
     ((if length block \<ge> 4
       then be_word (block ! 0) (block ! 1) (block ! 2) (block ! 3) else 0x1f1f1f1f),
      (if length block \<ge> 8
       then be_word (block ! 4) (block ! 5) (block ! 6) (block ! 7) else 0x3c3c3c3c),
      (if length block \<ge> 12
       then be_word (block ! 8) (block ! 9) (block ! 10) (block ! 11) else 0x7a7a7a7a))"

text \<open>
  \<^verbatim>\<open>return (value << shift) | (value >> (32 - shift));\<close>
  with \<^verbatim>\<open>shift\<close> an \<^verbatim>\<open>unsigned int\<close>, so \<^verbatim>\<open>32 - shift\<close> is computed in 32 bits.
  On words, \<open>push_bit\<close> and \<open>drop_bit\<close> by 32 or more yield 0, so at a shift of 0 the
  right operand of the OR is 0. (C++ leaves a shift of a 32-bit operand by 32 undefined;
  the compiled code yields 0 or the operand itself there, and both give the same OR.)
\<close>

definition rotate_left :: "u32 \<Rightarrow> u32 \<Rightarrow> u32" where
  "rotate_left val shift = push_bit (unat shift) val OR drop_bit (unat (32 - shift)) val"

text \<open>
  The Fisher-Yates step of \<^verbatim>\<open>derive_permutation\<close>:
  \<^verbatim>\<open>seed = seed * 1664525 + 1013904223; int j = seed % (i + 1); std::swap(permutation[i], permutation[j]);\<close>
\<close>

definition shuffle_step :: "u32 \<times> int list \<Rightarrow> nat \<Rightarrow> u32 \<times> int list" where
  "shuffle_step sp i =
     (let seed = fst sp * 1664525 + 1013904223;
          permutation = snd sp;
          j = unat (seed mod word_of_nat (i + 1))
      in (seed, permutation[i := permutation ! j, j := permutation ! i]))"

definition derive_permutation :: "u8 list \<Rightarrow> int list" where
  "derive_permutation block =
     (let permutation = map int [0..<16];
          seed = foldl (\<lambda>seed i. push_bit 8 seed OR ucast (block ! i)) (0 :: u32)
                   [0..<min (length block) 4]
      in snd (foldl shuffle_step (seed, permutation) (rev [1..<16])))"

definition compress_state :: "u32 list \<Rightarrow> u8 list" where
  "compress_state state =
     concat (map (\<lambda>word.
       [ucast (drop_bit 24 word AND 0xFF), ucast (drop_bit 16 word AND 0xFF),
        ucast (drop_bit 8 word AND 0xFF), ucast (word AND 0xFF)]) state)"

section \<open>The block loop of \<^verbatim>\<open>cos_hash\<close>\<close>

text \<open>
  The body of the block loop is split into its five phases, each a loop over the state
  indices \<open>0..15\<close> that updates the state in place. \<open>current_block\<close> is the slice
  \<^verbatim>\<open>[b * BLOCK_SIZE, (b + 1) * BLOCK_SIZE)\<close> of the padded input.
\<close>

definition current_block :: "u8 list \<Rightarrow> nat \<Rightarrow> u8 list" where
  "current_block paddedInput b = take BLOCK_SIZE (drop (b * BLOCK_SIZE) paddedInput)"

definition segment_of :: "u8 list \<Rightarrow> nat \<Rightarrow> u32" where
  "segment_of block i =
     (let offset = i * 4 in
      if offset + 4 \<le> length block
      then be_word (block ! offset) (block ! (offset + 1))
             (block ! (offset + 2)) (block ! (offset + 3))
      else foldl (\<lambda>segment j. push_bit 8 segment OR ucast (block ! j)) 0
             [offset..<length block])"

definition absorb :: "u8 list \<Rightarrow> u32 list \<Rightarrow> u32 list" where
  "absorb block state =
     foldl (\<lambda>st i. st[i := st ! i + segment_of block i]) state [0..<STATE_SIZE]"

text \<open>
  Phase C computes \<^verbatim>\<open>static_cast<int32_t>(floor(sin(a * static_cast<double>(temp)) * c))\<close>
  in double precision. Floating-point arithmetic is outside this development: the 32-bit
  pattern of that value is the parameter \<open>sin_mix a temp c\<close>, and everything below holds
  for every such function.
\<close>

definition nonlinear_mix ::
  "(u32 \<Rightarrow> u32 \<Rightarrow> u32 \<Rightarrow> u32) \<Rightarrow> u32 \<Rightarrow> u32 \<Rightarrow> u32 \<Rightarrow> u32 list \<Rightarrow> u32 list" where
  "nonlinear_mix sin_mix a b_param c state =
     foldl (\<lambda>st i. let temp = st ! i XOR b_param; mix = sin_mix a temp c
                    in st[i := st ! i + mix]) state [0..<STATE_SIZE]"

definition permute :: "int list \<Rightarrow> u32 list \<Rightarrow> u32 list" where
  "permute perm state = map (\<lambda>i. state ! nat (perm ! i)) [0..<STATE_SIZE]"

definition diffuse_step :: "u32 list \<Rightarrow> nat \<Rightarrow> u32 list" where
  "diffuse_step st i =
     (let neighbor = st ! ((i + 1) mod STATE_SIZE);
          rot = st ! i AND 0x1F;
          rotated = rotate_left neighbor rot
      in st[i := st ! i XOR rotated])"

definition diffuse :: "u32 list \<Rightarrow> u32 list" where
  "diffuse state = foldl diffuse_step state [0..<STATE_SIZE]"

definition process_block ::
  "(u32 \<Rightarrow> u32 \<Rightarrow> u32 \<Rightarrow> u32) \<Rightarrow> u8 list \<Rightarrow> u32 list \<Rightarrow> u32 list" where
  "process_block sin_mix block state =
     (case derive_params block of (a, b_param, c) \<Rightarrow>
        let state = absorb block state;
            state = nonlinear_mix sin_mix a b_param c state;
            perm = derive_permutation block;
            state = permute perm state
        in diffuse state)"

definition cos_hash :: "(u32 \<Rightarrow> u32 \<Rightarrow> u32 \<Rightarrow> u32) \<Rightarrow> u8 list \<Rightarrow> u8 list" where
  "cos_hash sin_mix input =
     (let paddedInput = pad_input input;
          num_blocks = length paddedInput div BLOCK_SIZE;
          seed = derive_seed input;
          state = map (\<lambda>i. initial_mix seed (int i)) [0..<STATE_SIZE];
          state = foldl (\<lambda>st b. process_block sin_mix (current_block paddedInput b) st)
                    state [0..<num_blocks]
      in compress_state state)"

text \<open>
  Recovering an input from its padded form, as the padding scheme intends: drop the
  trailing zero bytes, then the marker byte.
\<close>

definition unpad :: "u8 list \<Rightarrow> u8 list" where
  "unpad padded = rev (tl (dropWhile (\<lambda>b. b = 0) (rev padded)))"

text \<open>The number of zero bytes the padding loop appends to an input of \<open>n\<close> bytes.\<close>

definition pad_zeros :: "nat \<Rightarrow> nat" where
  "pad_zeros n = (BLOCK_SIZE - Suc n mod BLOCK_SIZE) mod BLOCK_SIZE"

section \<open>Properties of the padding\<close>

lemma pad_count_step:
  assumes "length p mod 64 \<noteq> 0"
  shows "Suc ((64 - Suc (length p) mod 64) mod 64) = (64 - length p mod 64) mod 64"
proof -
  from assms have r: "0 < length p mod 64" "length p mod 64 < 64" by simp_all
  have "Suc (length p) mod 64 =
        (if Suc (length p mod 64) = 64 then 0 else Suc (length p mod 64))"
    by (simp add: mod_Suc)
  with r show ?thesis by (auto split: if_splits)
qed

lemma pad_fill_mod:
  fixes m :: nat
  shows "(m + (64 - m mod 64) mod 64) mod 64 = 0"
proof -
  define r where "r = m mod 64"
  have lt: "r < 64" by (simp add: r_def)
  have "(m + (64 - r) mod 64) mod 64 = (r + (64 - r) mod 64) mod 64"
    unfolding r_def by (rule mod_add_left_eq [symmetric])
  also have "\<dots> = 0"
  proof (cases "r = 0")
    case True
    then show ?thesis by simp
  next
    case False
    with lt have "r + (64 - r) mod 64 = 64" by simp
    then show ?thesis by simp
  qed
  finally show ?thesis by (simp only: r_def)
qed

lemma pad_fill_min:
  fixes m j :: nat
  assumes "j < (64 - m mod 64) mod 64"
  shows "(m + j) mod 64 \<noteq> 0"
proof -
  define r where "r = m mod 64"
  have lt: "r < 64" by (simp add: r_def)
  from assms have j: "j < (64 - r) mod 64" by (simp only: r_def)
  then have nz: "r \<noteq> 0" by (cases "r = 0") simp_all
  with lt j have small: "r + j < 64" by simp
  have "(m + j) mod 64 = (r + j) mod 64"
    unfolding r_def by (rule mod_add_left_eq [symmetric])
  also from small have "\<dots> = r + j" by simp
  finally show ?thesis using nz by simp
qed

lemma pad_zeros_dvd: "BLOCK_SIZE dvd Suc n + pad_zeros n"
  unfolding pad_zeros_def BLOCK_SIZE_def dvd_eq_mod_eq_0 by (rule pad_fill_mod)

lemma pad_zeros_min:
  assumes "j < pad_zeros n"
  shows "\<not> BLOCK_SIZE dvd Suc n + j"
  using assms unfolding pad_zeros_def BLOCK_SIZE_def dvd_eq_mod_eq_0 by (rule pad_fill_min)

lemma pad_loop_eq:
  "pad_loop p = p @ replicate ((BLOCK_SIZE - length p mod BLOCK_SIZE) mod BLOCK_SIZE) 0"
proof (induction p rule: pad_loop.induct)
  case (1 padded)
  show ?case
  proof (cases "length padded mod BLOCK_SIZE \<noteq> 0")
    case True
    then have nz: "length padded mod 64 \<noteq> 0" by (simp add: BLOCK_SIZE_def)
    define k where "k = (64 - Suc (length padded) mod 64) mod 64"
    have len: "length (padded @ [0]) = Suc (length padded)" by simp
    have "pad_loop padded = pad_loop (padded @ [0])"
      using True by (subst pad_loop.simps) simp
    also have "\<dots> = (padded @ [0]) @
        replicate ((BLOCK_SIZE - length (padded @ [0]) mod BLOCK_SIZE) mod BLOCK_SIZE) 0"
      using "1.IH" [OF True] .
    also have "\<dots> = (padded @ [0]) @ replicate k 0"
      by (simp only: BLOCK_SIZE_def len k_def)
    also have "\<dots> = padded @ replicate (Suc k) 0"
      by simp
    also have "\<dots> = padded @ replicate ((64 - length padded mod 64) mod 64) 0"
      by (simp only: k_def pad_count_step [OF nz])
    finally show ?thesis by (simp only: BLOCK_SIZE_def)
  next
    case False
    then show ?thesis by (subst pad_loop.simps) simp
  qed
qed

lemma pad_input_eq:
  "pad_input input = input @ 0x80 # replicate (pad_zeros (length input)) 0"
proof -
  have "length (input @ [0x80 :: u8]) = Suc (length input)" by simp
  then show ?thesis
    by (simp only: pad_input_def pad_loop_eq pad_zeros_def append_assoc append_Cons append_Nil)
qed

lemma length_pad_input:
  "length (pad_input input) = Suc (length input) + pad_zeros (length input)"
  by (simp add: pad_input_eq)

lemma pad_input_dvd: "BLOCK_SIZE dvd length (pad_input input)"
  by (simp only: length_pad_input pad_zeros_dvd)

lemma unpad_pad_input: "unpad (pad_input input) = input"
proof -
  have "dropWhile (\<lambda>b. b = 0) (replicate (pad_zeros (length input)) (0 :: u8) @ 0x80 # rev input)
        = dropWhile (\<lambda>b. b = 0) (0x80 # rev input)"
    by (rule dropWhile_append2) simp
  also have "\<dots> = 0x80 # rev input" by simp
  finally show ?thesis by (simp add: pad_input_eq unpad_def)
qed

text \<open>
  Claim C4. For an input of any length, \<open>pad_input\<close> returns the input, then one byte
  \<open>0x80\<close>, then zero bytes, as few as make the total length a multiple of 64: the total
  is a multiple of 64 and no smaller number of zero bytes gives one. The padded length is
  at least the input's length plus one and is positive, and the empty input pads to
  \<open>0x80\<close> followed by 63 zero bytes.
\<close>

theorem pad_input_shape:
  "pad_input input = input @ 0x80 # replicate (pad_zeros (length input)) 0
   \<and> BLOCK_SIZE dvd length (pad_input input)
   \<and> (\<forall>j < pad_zeros (length input).
         \<not> BLOCK_SIZE dvd length (input @ 0x80 # replicate j 0))
   \<and> length input + 1 \<le> length (pad_input input)
   \<and> 0 < length (pad_input input)
   \<and> pad_input [] = 0x80 # replicate 63 0"
proof (intro conjI allI impI)
  show "pad_input input = input @ 0x80 # replicate (pad_zeros (length input)) 0"
    by (rule pad_input_eq)
  show "BLOCK_SIZE dvd length (pad_input input)"
    by (rule pad_input_dvd)
  show "\<not> BLOCK_SIZE dvd length (input @ 0x80 # replicate j 0)"
    if "j < pad_zeros (length input)" for j
    using pad_zeros_min [OF that] by simp
  show "length input + 1 \<le> length (pad_input input)"
    by (simp add: length_pad_input)
  show "0 < length (pad_input input)"
    by (simp add: length_pad_input)
  have "pad_zeros 0 = 63" by (simp add: pad_zeros_def BLOCK_SIZE_def)
  then show "pad_input [] = 0x80 # replicate 63 0"
    using pad_input_eq [of "[]"] by simp
qed

theorem pad_input_shape_witness:
  "pad_input [1, 2, 3] = [1, 2, 3] @ 0x80 # replicate 60 0
   \<and> BLOCK_SIZE dvd length (pad_input [1, 2, 3])
   \<and> \<not> BLOCK_SIZE dvd length ([1, 2, 3] @ 0x80 # replicate 59 (0 :: u8))"
proof -
  have k: "pad_zeros (length [1 :: u8, 2, 3]) = 60"
    by (simp add: pad_zeros_def BLOCK_SIZE_def)
  have "(59 :: nat) < 60" by simp
  with pad_input_shape [of "[1, 2, 3]"] show ?thesis
    unfolding k by blast
qed

text \<open>
  Claim C10. \<open>pad_input\<close> is injective: stripping the trailing zero bytes and then the
  marker byte from a padded input gives the input back, so two distinct inputs have
  distinct padded forms.
\<close>

theorem pad_input_injective:
  "unpad (pad_input x) = x \<and> (x \<noteq> y \<longrightarrow> pad_input x \<noteq> pad_input y)"
proof -
  have "x = y" if "pad_input x = pad_input y"
  proof -
    from that have "unpad (pad_input x) = unpad (pad_input y)" by (rule arg_cong)
    then show ?thesis by (simp only: unpad_pad_input)
  qed
  then show ?thesis using unpad_pad_input [of x] by blast
qed

theorem pad_input_injective_witness:
  "unpad (pad_input []) = [] \<and> [] \<noteq> [0 :: u8] \<and> pad_input [] \<noteq> pad_input [0]"
  using pad_input_injective [of "[]" "[0]"] by simp

section \<open>Properties of the seed\<close>

lemma foldl_index:
  "foldl (\<lambda>s i. f s (xs ! i)) a [0..<length xs] = foldl f a xs"
proof (induction xs rule: rev_induct)
  case Nil
  show ?case by simp
next
  case (snoc x xs)
  have "foldl (\<lambda>s i. f s ((xs @ [x]) ! i)) a [0..<length xs]
        = foldl (\<lambda>s i. f s (xs ! i)) a [0..<length xs]"
    by (rule foldl_cong) (simp_all add: nth_append)
  with snoc show ?case by (simp add: nth_append)
qed

lemma derive_seed_foldl:
  "derive_seed input = foldl seed_update (word_of_nat (length input)) input"
  unfolding derive_seed_def by (rule foldl_index)

lemma unat_ucast_byte: "unat (ucast (x :: u8) :: u32) = unat x"
proof -
  have "unat x < 2 ^ 8" using unsigned_less [of x] by simp
  then have "unat x < 2 ^ 32" by simp
  then have "take_bit 32 (unat x) = unat x" by (simp only: take_bit_nat_eq_self)
  then show ?thesis by (simp add: unsigned_ucast_eq)
qed

lemma unat_seed_sum:
  fixes a b c d :: u32
  shows "unat (a + b + c + d) = (unat a + unat b + unat c + unat d) mod 2 ^ 32"
proof -
  have "unat (a + b + c + d) = (unat (a + b + c) + unat d) mod 2 ^ 32"
    by (simp add: unat_word_ariths)
  also have "\<dots> = ((unat (a + b) + unat c) mod 2 ^ 32 + unat d) mod 2 ^ 32"
    by (simp add: unat_word_ariths)
  also have "\<dots> = (unat (a + b) + unat c + unat d) mod 2 ^ 32"
    by (rule mod_add_left_eq)
  also have "\<dots> = ((unat a + unat b) mod 2 ^ 32 + (unat c + unat d)) mod 2 ^ 32"
    by (simp add: unat_word_ariths add.assoc)
  also have "\<dots> = (unat a + unat b + (unat c + unat d)) mod 2 ^ 32"
    by (rule mod_add_left_eq)
  finally show ?thesis by (simp only: add.assoc)
qed

lemma unat_seed_update:
  "unat (seed_update seed x) = seed_update_spec (unat seed) (unat x)"
proof -
  have p: "unat (push_bit 6 seed) = push_bit 6 (unat seed) mod 2 ^ 32"
    by (simp add: unsigned_push_bit_eq take_bit_eq_mod)
  have d: "unat (drop_bit 2 seed) = drop_bit 2 (unat seed)"
    by (rule unat_drop_bit_eq)
  have c: "unat (0x9e3779b9 :: u32) = 0x9e3779b9" by simp
  show ?thesis
    unfolding seed_update_def seed_update_spec_def
    by (simp only: unsigned_xor_eq unat_seed_sum p d c unat_ucast_byte)
qed

lemma unat_foldl_seed:
  "unat (foldl seed_update a xs) = foldl seed_update_spec (unat a) (map unat xs)"
  by (induction xs arbitrary: a) (simp_all add: unat_seed_update)

lemma derive_seed_examples:
  "derive_seed [] = 0" "derive_seed [0x61] = 0x9E377A5B"
  by code_simp+

text \<open>
  Claim C5. \<open>derive_seed\<close> computes the seed the specification describes: start from the
  length of the input and fold each byte \<open>x\<close>, in order, by
  \<open>seed XOR (x + 0x9e3779b9 + (seed << 6) + (seed >> 2))\<close>, every operation taken
  modulo \<open>2 ^ 32\<close>.
\<close>

theorem derive_seed_refines_spec:
  "unat (derive_seed input) = derive_seed_spec (map unat input)"
proof -
  have "unat (derive_seed input) =
        foldl seed_update_spec (unat (word_of_nat (length input) :: u32)) (map unat input)"
    by (simp only: derive_seed_foldl unat_foldl_seed)
  also have "unat (word_of_nat (length input) :: u32) = length (map unat input) mod 2 ^ 32"
    by (simp add: unat_of_nat)
  finally show ?thesis
    by (simp only: derive_seed_spec_def)
qed

section \<open>The state keeps its 16 words\<close>

lemma length_foldl_update:
  "length (foldl (\<lambda>st i. st[i := g st i]) st ns) = length st"
  by (induction ns arbitrary: st) simp_all

lemma length_absorb: "length (absorb block state) = length state"
  unfolding absorb_def by (rule length_foldl_update)

lemma length_nonlinear_mix:
  "length (nonlinear_mix sin_mix a b_param c state) = length state"
proof -
  have "nonlinear_mix sin_mix a b_param c state =
        foldl (\<lambda>st i. st[i := st ! i + sin_mix a (st ! i XOR b_param) c]) state [0..<STATE_SIZE]"
    by (simp add: nonlinear_mix_def Let_def)
  then show ?thesis by (simp only: length_foldl_update)
qed

lemma length_diffuse_step: "length (diffuse_step st i) = length st"
  by (simp add: diffuse_step_def Let_def)

lemma length_foldl_diffuse: "length (foldl diffuse_step st ns) = length st"
  by (induction ns arbitrary: st) (simp_all add: length_diffuse_step)

lemma length_diffuse: "length (diffuse state) = length state"
  unfolding diffuse_def by (rule length_foldl_diffuse)

lemma length_permute: "length (permute perm state) = STATE_SIZE"
  by (simp add: permute_def)

lemma length_process_block: "length (process_block sin_mix block state) = STATE_SIZE"
  by (simp add: process_block_def Let_def length_diffuse length_permute split: prod.split)

lemma length_block_loop:
  "length st = STATE_SIZE \<Longrightarrow>
   length (foldl (\<lambda>st b. process_block sin_mix (current_block padded b) st) st bs) = STATE_SIZE"
  by (induction bs arbitrary: st) (simp_all add: length_process_block)

lemma length_compress_state: "length (compress_state state) = 4 * length state"
  by (induction state) (simp_all add: compress_state_def)

lemma length_cos_hash: "length (cos_hash sin_mix input) = 64"
proof -
  have "length (map (\<lambda>i. initial_mix (derive_seed input) (int i)) [0..<STATE_SIZE]) = STATE_SIZE"
    by simp
  then have "length (foldl (\<lambda>st b. process_block sin_mix (current_block (pad_input input) b) st)
      (map (\<lambda>i. initial_mix (derive_seed input) (int i)) [0..<STATE_SIZE])
      [0..<length (pad_input input) div BLOCK_SIZE]) = STATE_SIZE"
    by (rule length_block_loop)
  then show ?thesis
    by (simp add: cos_hash_def Let_def length_compress_state STATE_SIZE_def)
qed

text \<open>
  Claim C1. For every input byte sequence, the empty one included, \<open>cos_hash\<close> returns
  exactly 64 bytes: the 16 state words, four bytes each. This holds whatever the sine
  computation of Phase C yields.
\<close>

theorem cos_hash_length:
  "length (cos_hash sin_mix input) = 64 \<and> length (cos_hash sin_mix []) = 64"
proof
  show "length (cos_hash sin_mix input) = 64"
    by (rule length_cos_hash)
  show "length (cos_hash sin_mix []) = 64"
    by (rule length_cos_hash)
qed

section \<open>Phase E: diffusion in place\<close>

lemma diffuse_step_nth:
  "i < length st \<Longrightarrow> diffuse_step st i ! j =
     (if j = i then st ! i XOR rotate_left (st ! ((i + 1) mod STATE_SIZE)) (st ! i AND 0x1F)
      else st ! j)"
  by (simp add: diffuse_step_def Let_def)

lemma diffuse_prefix:
  assumes len: "length st = STATE_SIZE"
  shows "k \<le> STATE_SIZE \<Longrightarrow>
     length (foldl diffuse_step st [0..<k]) = STATE_SIZE
     \<and> (\<forall>j. k \<le> j \<longrightarrow> foldl diffuse_step st [0..<k] ! j = st ! j)
     \<and> (\<forall>j. j < k \<and> j < 15 \<longrightarrow> foldl diffuse_step st [0..<k] ! j =
            st ! j XOR rotate_left (st ! (j + 1)) (st ! j AND 0x1F))"
proof (induction k)
  case 0
  then show ?case by (simp add: len)
next
  case (Suc k)
  define r where "r = foldl diffuse_step st [0..<k]"
  from Suc have k: "k < STATE_SIZE" by simp
  with Suc.IH have r_len: "length r = STATE_SIZE"
    and r_rest: "\<And>j. k \<le> j \<Longrightarrow> r ! j = st ! j"
    and r_done: "\<And>j. j < k \<Longrightarrow> j < 15 \<Longrightarrow>
          r ! j = st ! j XOR rotate_left (st ! (j + 1)) (st ! j AND 0x1F)"
    by (simp_all add: r_def)
  have step: "foldl diffuse_step st [0..<Suc k] = diffuse_step r k"
    by (simp add: r_def)
  have kr: "k < length r" using k r_len by simp
  have "length (diffuse_step r k) = STATE_SIZE"
    by (simp add: length_diffuse_step r_len)
  moreover have "diffuse_step r k ! j = st ! j" if "Suc k \<le> j" for j
    using that r_rest [of j] by (simp add: diffuse_step_nth [OF kr])
  moreover have "diffuse_step r k ! j =
      st ! j XOR rotate_left (st ! (j + 1)) (st ! j AND 0x1F)"
    if "j < Suc k" "j < 15" for j
  proof (cases "j = k")
    case True
    with that have "(k + 1) mod STATE_SIZE = k + 1" by (simp add: STATE_SIZE_def)
    with True show ?thesis
      using r_rest [of k] r_rest [of "k + 1"] by (simp add: diffuse_step_nth [OF kr])
  next
    case False
    with that have "j < k" by simp
    with False that show ?thesis
      using r_done [of j] by (simp add: diffuse_step_nth [OF kr])
  qed
  ultimately show ?case unfolding step by blast
qed

lemma diffuse_last:
  assumes len: "length st = STATE_SIZE"
  shows "diffuse st ! 15 = st ! 15 XOR rotate_left (diffuse st ! 0) (st ! 15 AND 0x1F)"
proof -
  define r where "r = foldl diffuse_step st [0..<15]"
  have "15 \<le> STATE_SIZE" by (simp add: STATE_SIZE_def)
  from diffuse_prefix [OF len this]
  have r_len: "length r = STATE_SIZE" and r15: "r ! 15 = st ! 15"
    by (simp_all add: r_def)
  have "[0..<Suc 15] = [0..<15] @ [15]"
    by (rule upt_Suc_append) simp
  moreover have "STATE_SIZE = Suc 15"
    by (simp add: STATE_SIZE_def)
  ultimately have "[0..<STATE_SIZE] = [0..<15] @ [15]"
    by (simp only:)
  then have d: "diffuse st = diffuse_step r 15"
    by (simp add: diffuse_def r_def)
  have kr: "15 < length r" by (simp add: r_len STATE_SIZE_def)
  have "(15 + 1) mod STATE_SIZE = 0" by (simp add: STATE_SIZE_def)
  then show ?thesis
    unfolding d by (simp add: diffuse_step_nth [OF kr] r15)
qed

text \<open>
  Claim C6. Phase E updates the state in place in ascending index order: word \<open>i\<close>
  becomes \<open>state[i] XOR rotate_left (state[(i + 1) mod 16]) (state[i] AND 0x1F)\<close>. For
  \<open>i < 15\<close> the neighbour read is the word \<open>i + 1\<close> as it was before the phase; for
  \<open>i = 15\<close> it is word 0 as the phase has already rewritten it.
\<close>

theorem diffuse_in_place:
  assumes "length state = STATE_SIZE"
  shows "(\<forall>i < 15. diffuse state ! i =
            state ! i XOR rotate_left (state ! ((i + 1) mod 16)) (state ! i AND 0x1F))
         \<and> diffuse state ! 15 =
            state ! 15 XOR rotate_left (diffuse state ! ((15 + 1) mod 16)) (state ! 15 AND 0x1F)"
proof -
  have "STATE_SIZE \<le> STATE_SIZE" by simp
  from diffuse_prefix [OF assms this]
  have "diffuse state ! i = state ! i XOR rotate_left (state ! (i + 1)) (state ! i AND 0x1F)"
    if "i < 15" for i
    using that by (simp add: diffuse_def STATE_SIZE_def)
  moreover have "(i + 1) mod 16 = i + 1" if "i < 15" for i :: nat
    using that by simp
  ultimately show ?thesis
    using diffuse_last [OF assms] by simp
qed

theorem diffuse_in_place_witness:
  "length (replicate 16 (1 :: u32)) = STATE_SIZE
   \<and> diffuse (replicate 16 1) ! 0 = 3
   \<and> diffuse (replicate 16 1) ! 15 = 7"
proof -
  have len: "length (replicate 16 (1 :: u32)) = STATE_SIZE"
    by (simp add: STATE_SIZE_def)
  have r1: "rotate_left 1 1 = 2" and r3: "rotate_left 3 1 = 6"
    by (simp_all add: rotate_left_def)
  have "(0 :: nat) < 15" by simp
  with diffuse_in_place [OF len] have
    "diffuse (replicate 16 1) ! 0 =
       replicate 16 1 ! 0 XOR rotate_left (replicate 16 1 ! ((0 + 1) mod 16)) (replicate 16 1 ! 0 AND 0x1F)"
    by blast
  then have z: "diffuse (replicate 16 1) ! 0 = 3" by (simp add: r1)
  from diffuse_in_place [OF len] have
    "diffuse (replicate 16 1) ! 15 =
       replicate 16 1 ! 15 XOR rotate_left (diffuse (replicate 16 1) ! ((15 + 1) mod 16)) (replicate 16 1 ! 15 AND 0x1F)"
    by blast
  then have "diffuse (replicate 16 1) ! 15 = 7" by (simp add: z r3)
  with len z show ?thesis by simp
qed

section \<open>The permutation\<close>

lemma shuffle_index_bound:
  assumes "i < 16"
  shows "unat ((seed :: u32) mod word_of_nat (i + 1)) < i + 1"
proof -
  define n where "n = i + 1"
  from assms have "n < 2 ^ 32" by (simp add: n_def)
  moreover have "unat (word_of_nat n :: u32) = n mod 2 ^ LENGTH(32)"
    by (rule unat_of_nat)
  ultimately have "unat (word_of_nat n :: u32) = n" by simp
  moreover have "0 < n" by (simp add: n_def)
  ultimately have "unat (seed mod word_of_nat n) < n" by (simp add: unat_mod)
  then show ?thesis by (simp only: n_def)
qed

lemma shuffle_step_perm:
  assumes "length p = 16" "i < 16"
  shows "length (snd (shuffle_step (s, p) i)) = 16"
    and "mset (snd (shuffle_step (s, p) i)) = mset p"
proof -
  define j where "j = unat ((s * 1664525 + 1013904223) mod word_of_nat (i + 1))"
  have j: "j < i + 1" unfolding j_def using assms(2) by (rule shuffle_index_bound)
  have eq: "snd (shuffle_step (s, p) i) = p[i := p ! j, j := p ! i]"
    by (simp add: shuffle_step_def Let_def j_def)
  show "length (snd (shuffle_step (s, p) i)) = 16"
    by (simp add: eq assms)
  from j assms have "j < length p" "i < length p" by simp_all
  then show "mset (snd (shuffle_step (s, p) i)) = mset p"
    unfolding eq by (simp add: mset_swap)
qed

lemma shuffle_loop_perm:
  assumes "\<forall>i \<in> set ns. i < 16" "length p = 16"
  shows "length (snd (foldl shuffle_step (s, p) ns)) = 16
         \<and> mset (snd (foldl shuffle_step (s, p) ns)) = mset p"
  using assms
proof (induction ns arbitrary: s p)
  case Nil
  then show ?case by simp
next
  case (Cons n ns)
  then have n: "n < 16" by simp
  obtain s' p' where sp: "shuffle_step (s, p) n = (s', p')" by (cases "shuffle_step (s, p) n")
  with shuffle_step_perm [OF Cons.prems(2) n, of s]
  have p': "length p' = 16" "mset p' = mset p" by simp_all
  from Cons.prems have "\<forall>i \<in> set ns. i < 16" by simp
  from Cons.IH [OF this p'(1), of s'] show ?case by (simp add: sp p'(2))
qed

lemma derive_permutation_mset:
  "length (derive_permutation block) = 16
   \<and> mset (derive_permutation block) = mset (map int [0..<16])"
proof -
  have "\<forall>i \<in> set (rev [1..<16]). i < 16" by simp
  moreover have "length (map int [0..<16]) = 16" by simp
  ultimately show ?thesis
    unfolding derive_permutation_def Let_def by (rule shuffle_loop_perm)
qed

lemma derive_permutation_set: "set (derive_permutation block) = {0..15}"
proof -
  have "set (derive_permutation block) = set (map int [0..<16])"
    using derive_permutation_mset [of block] by (metis set_mset_mset)
  also have "\<dots> = int ` {0..<16}" by simp
  also have "\<dots> = {0..<16}" by (simp add: image_int_atLeastLessThan)
  also have "\<dots> = {0..15}" by auto
  finally show ?thesis .
qed

lemma derive_permutation_distinct: "distinct (derive_permutation block)"
proof -
  have "distinct (map int [0..<16])" by (simp add: distinct_map)
  with derive_permutation_mset [of block] show ?thesis
    by (metis mset_eq_imp_distinct_iff)
qed

lemma permute_mset:
  assumes "length state = STATE_SIZE"
  shows "mset (permute (derive_permutation block) state) = mset state"
proof -
  define perm where "perm = derive_permutation block"
  have len: "length perm = 16" and ms: "mset perm = mset (map int [0..<16])"
    using derive_permutation_mset [of block] by (simp_all add: perm_def)
  have "permute perm state = map (\<lambda>i. (\<lambda>p. state ! nat p) (perm ! i)) [0..<length perm]"
    by (simp add: permute_def STATE_SIZE_def len)
  also have "\<dots> = map (\<lambda>p. state ! nat p) perm"
    by (rule nth_equalityI) simp_all
  finally have "mset (permute perm state) = image_mset (\<lambda>p. state ! nat p) (mset perm)"
    by simp
  also have "\<dots> = image_mset (\<lambda>p. state ! nat p) (mset (map int [0..<16]))"
    by (simp only: ms)
  also have "\<dots> = mset (map (\<lambda>p. state ! nat p) (map int [0..<16]))"
    by (simp only: mset_map)
  also have "\<dots> = mset (map (\<lambda>i. state ! i) [0..<16])"
    by (simp only: map_map comp_def nat_int)
  also have "\<dots> = mset state"
    using assms map_nth [of state] by (simp add: STATE_SIZE_def)
  finally show ?thesis by (simp only: perm_def)
qed

text \<open>
  Claim C7. For a block of any length, \<open>derive_permutation\<close> returns 16 distinct integers,
  each in \<open>[0, 15]\<close> and each of them occurring: a bijection on the state indices. The
  permute phase therefore reorders the state words and keeps their values.
\<close>

theorem derive_permutation_bijection:
  "length (derive_permutation block) = 16
   \<and> distinct (derive_permutation block)
   \<and> set (derive_permutation block) = {0..15}
   \<and> bij_betw (\<lambda>i. derive_permutation block ! i) {..<16} {0..15}
   \<and> (length state = STATE_SIZE \<longrightarrow>
        mset (permute (derive_permutation block) state) = mset state)"
proof -
  have "bij_betw (\<lambda>i. derive_permutation block ! i) {..<16} {0..15}"
    using derive_permutation_distinct [of block] derive_permutation_mset [of block]
      derive_permutation_set [of block]
    by (intro bij_betw_nth) simp_all
  then show ?thesis
    using derive_permutation_distinct [of block] derive_permutation_mset [of block]
      derive_permutation_set [of block] permute_mset [of state block]
    by blast
qed

lemma derive_permutation_Nil:
  "derive_permutation [] = [12, 10, 14, 6, 4, 5, 3, 8, 11, 9, 1, 13, 0, 7, 2, 15]"
  by code_simp

theorem derive_permutation_bijection_witness:
  "derive_permutation [] = [12, 10, 14, 6, 4, 5, 3, 8, 11, 9, 1, 13, 0, 7, 2, 15]
   \<and> length [0, 1, 2, 3, 4, 5, 6, 7, 8, 9, 10, 11, 12, 13, 14, 15 :: u32] = STATE_SIZE
   \<and> mset (permute (derive_permutation [])
               [0, 1, 2, 3, 4, 5, 6, 7, 8, 9, 10, 11, 12, 13, 14, 15])
       = mset [0, 1, 2, 3, 4, 5, 6, 7, 8, 9, 10, 11, 12, 13, 14, 15 :: u32]"
proof -
  have len: "length [0, 1, 2, 3, 4, 5, 6, 7, 8, 9, 10, 11, 12, 13, 14, 15 :: u32] = STATE_SIZE"
    by (simp add: STATE_SIZE_def)
  with derive_permutation_bijection
         [of "[]" "[0, 1, 2, 3, 4, 5, 6, 7, 8, 9, 10, 11, 12, 13, 14, 15]"]
  have "mset (permute (derive_permutation [])
                [0, 1, 2, 3, 4, 5, 6, 7, 8, 9, 10, 11, 12, 13, 14, 15])
        = mset [0, 1, 2, 3, 4, 5, 6, 7, 8, 9, 10, 11, 12, 13, 14, 15 :: u32]"
    by blast
  with len derive_permutation_Nil show ?thesis by blast
qed

section \<open>Blocks are whole\<close>

lemma length_current_block:
  assumes "b < length padded div BLOCK_SIZE"
  shows "length (current_block padded b) = BLOCK_SIZE"
proof -
  from assms have "Suc b \<le> length padded div 64" by (simp add: BLOCK_SIZE_def)
  then have "Suc b * 64 \<le> length padded div 64 * 64" by (rule mult_le_mono1)
  also have "\<dots> \<le> length padded" by (rule div_times_less_eq_dividend)
  finally have "64 \<le> length padded - b * 64" by simp
  then show ?thesis by (simp add: current_block_def BLOCK_SIZE_def)
qed

lemma derive_params_full:
  assumes "length block = BLOCK_SIZE"
  shows "derive_params block =
     (be_word (block ! 0) (block ! 1) (block ! 2) (block ! 3),
      be_word (block ! 4) (block ! 5) (block ! 6) (block ! 7),
      be_word (block ! 8) (block ! 9) (block ! 10) (block ! 11))"
  using assms by (simp add: derive_params_def BLOCK_SIZE_def)

lemma segment_of_full:
  assumes "length block = BLOCK_SIZE" "i < STATE_SIZE"
  shows "i * 4 + 4 \<le> length block"
    and "segment_of block i =
      be_word (block ! (i * 4)) (block ! (i * 4 + 1)) (block ! (i * 4 + 2)) (block ! (i * 4 + 3))"
proof -
  from assms show le: "i * 4 + 4 \<le> length block"
    by (simp add: BLOCK_SIZE_def STATE_SIZE_def)
  then show "segment_of block i =
      be_word (block ! (i * 4)) (block ! (i * 4 + 1)) (block ! (i * 4 + 2)) (block ! (i * 4 + 3))"
    by (simp add: segment_of_def Let_def)
qed

text \<open>
  Claim C8. Every block \<open>cos_hash\<close> processes (block \<open>b\<close> of the padded input, for
  \<open>b\<close> below the number of blocks) has exactly 64 bytes. So the three size tests of
  \<open>derive_params\<close> succeed and the parameters are read from the block, never taken from
  the defaults; and for each of the 16 state indices the absorb loop finds four bytes at
  offset \<open>4 * i\<close> and reads a full word, never packing trailing bytes.
\<close>

theorem block_fallbacks_unreachable:
  assumes "b < length (pad_input input) div BLOCK_SIZE"
    and "block = current_block (pad_input input) b"
  shows "length block = BLOCK_SIZE
     \<and> 4 \<le> length block \<and> 8 \<le> length block \<and> 12 \<le> length block
     \<and> derive_params block =
         (be_word (block ! 0) (block ! 1) (block ! 2) (block ! 3),
          be_word (block ! 4) (block ! 5) (block ! 6) (block ! 7),
          be_word (block ! 8) (block ! 9) (block ! 10) (block ! 11))
     \<and> (\<forall>i < STATE_SIZE. i * 4 + 4 \<le> length block
          \<and> segment_of block i =
              be_word (block ! (i * 4)) (block ! (i * 4 + 1))
                (block ! (i * 4 + 2)) (block ! (i * 4 + 3)))"
proof -
  have len: "length block = BLOCK_SIZE"
    unfolding assms(2) using assms(1) by (rule length_current_block)
  then have "4 \<le> length block" "8 \<le> length block" "12 \<le> length block"
    by (simp_all add: BLOCK_SIZE_def)
  with len show ?thesis
    using derive_params_full [OF len] segment_of_full [OF len] by blast
qed

lemma current_block_Nil: "current_block (pad_input []) 0 = 0x80 # replicate 63 0"
proof -
  have "pad_zeros 0 = 63" by (simp add: pad_zeros_def BLOCK_SIZE_def)
  then have "pad_input [] = 0x80 # replicate 63 0"
    using pad_input_eq [of "[]"] by simp
  then show ?thesis by (simp add: current_block_def BLOCK_SIZE_def)
qed

theorem block_fallbacks_unreachable_witness:
  "0 < length (pad_input []) div BLOCK_SIZE
   \<and> length (current_block (pad_input []) 0) = BLOCK_SIZE
   \<and> derive_params (current_block (pad_input []) 0) = (0x80000000, 0, 0)
   \<and> segment_of (current_block (pad_input []) 0) 0 = 0x80000000"
proof -
  have n: "0 < length (pad_input []) div BLOCK_SIZE"
    by (simp add: length_pad_input pad_zeros_def BLOCK_SIZE_def)
  have z: "(0 :: nat) < STATE_SIZE" by (simp add: STATE_SIZE_def)
  have w: "be_word 0x80 0 0 0 = 0x80000000" "be_word 0 0 0 0 = 0"
    by (simp_all add: be_word_def)
  from block_fallbacks_unreachable [OF n refl]
  have len: "length (current_block (pad_input []) 0) = BLOCK_SIZE"
    and dp: "derive_params (current_block (pad_input []) 0) =
         (be_word (current_block (pad_input []) 0 ! 0) (current_block (pad_input []) 0 ! 1)
            (current_block (pad_input []) 0 ! 2) (current_block (pad_input []) 0 ! 3),
          be_word (current_block (pad_input []) 0 ! 4) (current_block (pad_input []) 0 ! 5)
            (current_block (pad_input []) 0 ! 6) (current_block (pad_input []) 0 ! 7),
          be_word (current_block (pad_input []) 0 ! 8) (current_block (pad_input []) 0 ! 9)
            (current_block (pad_input []) 0 ! 10) (current_block (pad_input []) 0 ! 11))"
    and sg: "\<forall>i < STATE_SIZE. i * 4 + 4 \<le> length (current_block (pad_input []) 0)
          \<and> segment_of (current_block (pad_input []) 0) i =
              be_word (current_block (pad_input []) 0 ! (i * 4))
                (current_block (pad_input []) 0 ! (i * 4 + 1))
                (current_block (pad_input []) 0 ! (i * 4 + 2))
                (current_block (pad_input []) 0 ! (i * 4 + 3))"
    by blast+
  from sg z have "segment_of (current_block (pad_input []) 0) 0 =
              be_word (current_block (pad_input []) 0 ! (0 * 4))
                (current_block (pad_input []) 0 ! (0 * 4 + 1))
                (current_block (pad_input []) 0 ! (0 * 4 + 2))
                (current_block (pad_input []) 0 ! (0 * 4 + 3))"
    by blast
  then have s0: "segment_of (current_block (pad_input []) 0) 0 = 0x80000000"
    by (simp add: current_block_Nil w)
  from dp have "derive_params (current_block (pad_input []) 0) = (0x80000000, 0, 0)"
    by (simp add: current_block_Nil w)
  with n len s0 show ?thesis by blast
qed

section \<open>Phases B and C act on each word alone\<close>

lemma foldl_pointwise_nth:
  assumes "j < length st"
  shows "n \<le> length st \<Longrightarrow>
     length (foldl (\<lambda>s i. s[i := h i (s ! i)]) st [0..<n]) = length st
     \<and> foldl (\<lambda>s i. s[i := h i (s ! i)]) st [0..<n] ! j
         = (if j < n then h j (st ! j) else st ! j)"
proof (induction n)
  case 0
  show ?case by simp
next
  case (Suc n)
  define r where "r = foldl (\<lambda>s i. s[i := h i (s ! i)]) st [0..<n]"
  from Suc have n: "n < length st" by simp
  with Suc.IH have len: "length r = length st"
    and rj: "r ! j = (if j < n then h j (st ! j) else st ! j)"
    by (simp_all add: r_def)
  have step: "foldl (\<lambda>s i. s[i := h i (s ! i)]) st [0..<Suc n] = r[n := h n (r ! n)]"
    by (simp add: r_def)
  show ?case
  proof (cases "j = n")
    case True
    with rj n len show ?thesis unfolding step by simp
  next
    case False
    with rj n len assms show ?thesis unfolding step by auto
  qed
qed

lemma absorb_nth:
  assumes "length state = STATE_SIZE" "i < STATE_SIZE"
  shows "absorb block state ! i = state ! i + segment_of block i"
proof -
  have "i < length state" "STATE_SIZE \<le> length state" using assms by simp_all
  from foldl_pointwise_nth [OF this, of "\<lambda>i w. w + segment_of block i"] assms(2)
  show ?thesis by (simp add: absorb_def)
qed

lemma nonlinear_mix_nth:
  assumes "length state = STATE_SIZE" "i < STATE_SIZE"
  shows "nonlinear_mix sin_mix a b_param c state ! i
         = state ! i + sin_mix a (state ! i XOR b_param) c"
proof -
  have "i < length state" "STATE_SIZE \<le> length state" using assms by simp_all
  from foldl_pointwise_nth [OF this, of "\<lambda>i w. w + sin_mix a (w XOR b_param) c"] assms(2)
  show ?thesis by (simp add: nonlinear_mix_def Let_def)
qed

lemma add_negative_mix:
  fixes w :: u32
  shows "w + word_of_int (- m) = w - word_of_int m"
  by simp

section \<open>Rotation\<close>

lemma rotl_bits:
  fixes v :: u32
  assumes m: "0 < m" "m < 32" and n: "n < 32"
  shows "bit (push_bit m v OR drop_bit (32 - m) v) n \<longleftrightarrow> bit (word_rotl m v) n"
proof -
  define k where "k = 32 - m"
  have km: "k + m = 32" "k < 32" using m by (simp_all add: k_def)
  have lhs: "bit (push_bit m v OR drop_bit k v) n \<longleftrightarrow>
             (m \<le> n \<and> bit v (n - m)) \<or> bit v (k + n)"
    using n by (simp add: bit_or_iff bit_push_bit_iff bit_drop_bit_eq)
  have "m mod 32 = m" using m by simp
  then have rhs: "bit (word_rotl m v) n \<longleftrightarrow> bit v ((n + k) mod 32)"
    using n by (simp add: bit_word_rotl_iff k_def)
  show ?thesis
  proof (cases "m \<le> n")
    case True
    then obtain d where d: "n = m + d" using le_Suc_ex by blast
    with km have "n + k = 32 + d" by simp
    then have "(n + k) mod 32 = d mod 32" by simp
    moreover have "d < 32" using n d by simp
    ultimately have e: "(n + k) mod 32 = n - m" using d by simp
    have "32 \<le> k + n" using km True by simp
    then have "\<not> bit v (k + n)"
      using bit_imp_le_length [of v "k + n"] by auto
    with True e show ?thesis
      unfolding k_def [symmetric] lhs rhs by simp
  next
    case False
    with km have "n + k < 32" by simp
    then have "(n + k) mod 32 = k + n" by simp
    with False show ?thesis
      unfolding k_def [symmetric] lhs rhs by simp
  qed
qed

lemma rotate_left_word_rotl:
  assumes "0 < unat shift" "unat shift < 32"
  shows "rotate_left v shift = word_rotl (unat shift) v"
proof -
  have "shift \<le> 32" using assms by (simp add: word_le_nat_alt)
  then have "unat (32 - shift) = unat (32 :: u32) - unat shift"
    by (rule unat_sub)
  then have k: "unat (32 - shift) = 32 - unat shift" by simp
  have "push_bit (unat shift) v OR drop_bit (32 - unat shift) v = word_rotl (unat shift) v"
  proof (rule bit_word_eqI)
    fix n assume "n < LENGTH(32)"
    then have "n < 32" by simp
    with assms show "bit (push_bit (unat shift) v OR drop_bit (32 - unat shift) v) n
        \<longleftrightarrow> bit (word_rotl (unat shift) v) n"
      by (rule rotl_bits)
  qed
  then show ?thesis by (simp only: rotate_left_def k)
qed

lemma rot_bound: "unat (w AND 0x1F :: u32) < 32"
proof -
  have "unat (w AND 0x1F) \<le> unat (0x1F :: u32)"
    by (rule word_and_le1 [THEN word_le_nat_alt [THEN iffD1]])
  then show ?thesis by simp
qed

lemma rotate_left_total_zero: "rotate_left v 0 = v"
  by (simp add: rotate_left_def)

lemma word_rotl_zero: "word_rotl 0 (v :: u32) = v"
proof (rule bit_word_eqI)
  fix n assume "n < LENGTH(32)"
  then have n: "n < 32" by simp
  then have "(n + 32) mod 32 = n" by simp
  with n show "bit (word_rotl 0 v) n \<longleftrightarrow> bit v n"
    by (simp add: bit_word_rotl_iff)
qed

lemma rotate_left_phase_e:
  "rotate_left v (w AND 0x1F) = word_rotl (unat (w AND 0x1F)) v"
proof (cases "unat (w AND 0x1F) = 0")
  case True
  then have "w AND 0x1F = 0" by (simp only: unat_eq_0)
  then show ?thesis by (simp add: rotate_left_total_zero word_rotl_zero)
next
  case False
  then have "0 < unat (w AND 0x1F)" by simp
  then show ?thesis using rot_bound [of w] by (rule rotate_left_word_rotl)
qed

text \<open>
  Claim C9. Rotation by zero is a no-op: \<open>rotate_left v 0 = v\<close> for every 32-bit value.
  In Phase E the rotation amount is \<open>state[i] AND 0x1F\<close>, which is always below 32, and
  for every such amount, zero included, \<open>rotate_left\<close> is the 32-bit circular left
  rotation.
\<close>

theorem rotate_left_zero_noop:
  "rotate_left v 0 = v
   \<and> unat (st ! i AND 0x1F :: u32) < 32
   \<and> rotate_left v (st ! i AND 0x1F) = word_rotl (unat (st ! i AND 0x1F)) v
   \<and> diffuse_step st i =
       st[i := st ! i XOR
                word_rotl (unat (st ! i AND 0x1F)) (st ! ((i + 1) mod STATE_SIZE))]"
proof (intro conjI)
  show "rotate_left v 0 = v"
    by (simp add: rotate_left_def)
  show "unat (st ! i AND 0x1F) < 32"
    by (rule rot_bound)
  show "rotate_left v (st ! i AND 0x1F) = word_rotl (unat (st ! i AND 0x1F)) v"
    by (rule rotate_left_phase_e)
  show "diffuse_step st i =
       st[i := st ! i XOR
                word_rotl (unat (st ! i AND 0x1F)) (st ! ((i + 1) mod STATE_SIZE))]"
    by (simp only: diffuse_step_def Let_def rotate_left_phase_e)
qed

end
